theory Spec2Isabelle
  imports Main "HOL-Library.Multiset" "HOL-Library.Sublist"
begin

section \<open>Data model (migration.go)\<close>

text \<open>
  \<^verbatim>\<open>type Version struct { ID uint; Description string; Timestamp time.Time }\<close>.
  Version ids are only ever compared and copied, never computed with, so no wrap-around
  can arise and \<open>uint\<close> is read as \<open>nat\<close>. An instant is a number read from the world's
  clock.
\<close>

record Version =
  ID :: nat
  Description :: string
  Timestamp :: nat

text \<open>
  \<^verbatim>\<open>type MigrationFn func(db *mongo.Database) error\<close>: an action works on the database
  behind the handle and reports an error or nil. The database is a value of an arbitrary
  type \<open>'db\<close>, an error cause a value of an arbitrary type \<open>'e\<close>; the action returns the
  database as it leaves it, whether it fails or not. Actions work on the application's
  data: the ledger collection is written through \<open>SetVersion\<close> only.
\<close>

type_synonym ('db, 'e) MigrationFn = "'db \<Rightarrow> 'e option \<times> 'db"

text \<open>
  \<^verbatim>\<open>type Migration struct { Version; Up MigrationFn; Down MigrationFn }\<close>: the embedded
  struct is a record extension, a nil function is \<open>None\<close>.
\<close>

record ('db, 'e) Migration = Version +
  Up :: "('db, 'e) MigrationFn option"
  Down :: "('db, 'e) MigrationFn option"

text \<open>
  \<^verbatim>\<open>func (ms Migrations) Sort(direction ...int)\<close> sorts the slice in place with
  \<open>sort.Slice\<close>, descending when the first variadic argument is \<open>-1\<close>, ascending
  otherwise. The function below is the new content of the slice; the callers write it
  back to the slice's backing array. \<open>sort.Slice\<close> is not stable: among migrations with
  equal ids Go fixes no order, and the model takes that of an insertion sort. With unique
  ids there is one sorted order only.
\<close>

definition Sort :: "('db, 'e) Migration list \<Rightarrow> int list \<Rightarrow> ('db, 'e) Migration list" where
  "Sort ms direction =
     (if length direction > 0 \<and> direction ! 0 = - 1 then rev (sort_key ID ms)
      else sort_key ID ms)"

definition ContainsVersion :: "('db, 'e) Migration list \<Rightarrow> nat \<Rightarrow> bool" where
  "ContainsVersion ms version = list_ex (\<lambda>m. ID m = version) ms"

section \<open>The world the migrator runs in\<close>

text \<open>
  The ghost field \<open>calls\<close> logs every invocation of a migration action, in order; no
  function of the program reads it.
\<close>

datatype call = UpCalled nat | DownCalled nat

text \<open>
  \<^item> \<open>heap\<close>: the backing arrays of the \<open>[]Migration\<close> slices, by address; a slice is the
    address of its array.
  \<^item> \<open>db\<close>: the database the actions work on.
  \<^item> \<open>colls\<close>: the documents of each ledger collection, by collection name, in
    insertion order.
  \<^item> \<open>find_err\<close>, \<open>decode_err\<close>, \<open>insert_err\<close>: the failures of the store, which the
    driver reports and the program only propagates: whether \<open>FindOne\<close> fails (other
    than with \<open>ErrNoDocuments\<close>), whether \<open>Decode\<close> fails, and whether \<open>InsertOne\<close> of a
    document into a collection with the given documents fails.
  \<^item> \<open>now\<close>: the clock \<open>time.Now()\<close> reads.
\<close>

record ('db, 'e) world =
  heap :: "('db, 'e) Migration list list"
  db :: 'db
  colls :: "string \<Rightarrow> Version list"
  find_err :: "'e option"
  decode_err :: "'e option"
  insert_err :: "Version list \<Rightarrow> Version \<Rightarrow> 'e option"
  now :: nat
  calls :: "call list"

text \<open>A slice read: an address with no array behind it is the nil slice.\<close>

definition slice_get :: "'a list list \<Rightarrow> nat \<Rightarrow> 'a list" where
  "slice_get h a = (if a < length h then h ! a else [])"

text \<open>
  \<open>m.migrations.Sort(direction...)\<close> on the slice at address \<open>a\<close>: the sorted content
  is written to the slice's backing array.
\<close>

definition Migrations_Sort :: "nat \<Rightarrow> int list \<Rightarrow> ('db, 'e) world \<Rightarrow> ('db, 'e) world" where
  "Migrations_Sort a direction w =
     w\<lparr>heap := (heap w)[a := Sort (slice_get (heap w) a) direction]\<rparr>"

definition new_calls :: "('db, 'e) world \<Rightarrow> ('db, 'e) world \<Rightarrow> call list" where
  "new_calls w w' = drop (length (calls w)) (calls w')"

text \<open>Calling an action: it runs on the database, and the ghost log records the call.\<close>

definition invoke ::
  "('db, 'e) MigrationFn \<Rightarrow> call \<Rightarrow> ('db, 'e) world \<Rightarrow> 'e option \<times> ('db, 'e) world" where
  "invoke f c w = (case f (db w) of (r, db') \<Rightarrow> (r, w\<lparr>db := db', calls := calls w @ [c]\<rparr>))"

section \<open>The version ledger (versions.go)\<close>

datatype 'a outcome = Panic string | Return 'a

datatype 'e find_result = ErrNoDocuments | FindErr 'e | Document Version

text \<open>The first of the documents with the greatest id among \<open>r\<close> and \<open>ds\<close>.\<close>

fun greatest :: "Version \<Rightarrow> Version list \<Rightarrow> Version" where
  "greatest r [] = r"
| "greatest r (d # ds) = greatest (if ID r < ID d then d else r) ds"

text \<open>
  \<^verbatim>\<open>FindOne(ctx, bson.D{{}}, options.FindOne().SetSort(bson.D{{"_id", -1}}))\<close>: the
  document with the greatest \<open>_id\<close> of the collection, which is the field \<open>ID\<close>.
\<close>

definition FindOne :: "('db, 'e) world \<Rightarrow> string \<Rightarrow> 'e find_result" where
  "FindOne w c =
     (case find_err w of
        Some e \<Rightarrow> FindErr e
      | None \<Rightarrow> (case colls w c of [] \<Rightarrow> ErrNoDocuments | d # ds \<Rightarrow> Document (greatest d ds)))"

definition InsertOne ::
  "('db, 'e) world \<Rightarrow> string \<Rightarrow> Version \<Rightarrow> 'e option \<times> ('db, 'e) world" where
  "InsertOne w c doc =
     (case insert_err w (colls w c) doc of
        Some e \<Rightarrow> (Some e, w)
      | None \<Rightarrow> (None, w\<lparr>colls := (colls w)(c := colls w c @ [doc])\<rparr>))"

text \<open>\<^verbatim>\<open>func (v *versions) Current\<close>: the body is \<^verbatim>\<open>panic("implement me")\<close>.\<close>

definition versions_Current ::
  "string \<Rightarrow> ('db, 'e) world \<Rightarrow> (Version option \<times> 'e option) outcome" where
  "versions_Current v w = Panic ''implement me''"

text \<open>
  \<^verbatim>\<open>func (v *versions) Get(ctx, id int)\<close>, lines 32 to 53: the filter is empty and the
  parameter \<open>id\<close> is not read; the three return statements give a version number, a
  description and an error.
\<close>

definition versions_Get ::
  "string \<Rightarrow> int \<Rightarrow> ('db, 'e) world \<Rightarrow> (nat \<times> string \<times> 'e option) outcome" where
  "versions_Get v id' w =
     Return (case FindOne w v of
               ErrNoDocuments \<Rightarrow> (0, [], None)
             | FindErr err \<Rightarrow> (0, [], Some err)
             | Document rec \<Rightarrow>
                 (case decode_err w of
                    Some err \<Rightarrow> (0, [], Some err)
                  | None \<Rightarrow> (ID rec, Description rec, None)))"

section \<open>The migrator (migrate.go)\<close>

definition AllAvailable :: int where
  "AllAvailable = - 1"

definition defaultMigrationsCollection :: string where
  "defaultMigrationsCollection = ''migrations''"

text \<open>
  \<^verbatim>\<open>type migrator struct { versions Versions; migrations Migrations }\<close>: the ledger is
  the collection of that name, the migrations a slice.
\<close>

record migrator =
  versions :: string
  migrations :: nat

record config =
  collectionName :: string

definition WithMigrationsCollection :: "string \<Rightarrow> config \<Rightarrow> config" where
  "WithMigrationsCollection name c = c\<lparr>collectionName := name\<rparr>"

text \<open>
  \<^verbatim>\<open>NewMigrate\<close>: \<open>slices.Clone\<close> allocates a new backing array holding a copy of the
  caller's slice \<open>a\<close>.
\<close>

definition NewMigrate ::
  "('db, 'e) world \<Rightarrow> nat \<Rightarrow> (config \<Rightarrow> config) list \<Rightarrow> migrator \<times> ('db, 'e) world" where
  "NewMigrate w a options =
     (let cfg = fold (\<lambda>opt c. opt c) options \<lparr>collectionName = defaultMigrationsCollection\<rparr>
      in (\<lparr>versions = collectionName cfg, migrations = length (heap w)\<rparr>,
          w\<lparr>heap := heap w @ [slice_get (heap w) a]\<rparr>))"

text \<open>\<^verbatim>\<open>func (m *migrator) Version\<close> delegates to the ledger's \<open>Current\<close>.\<close>

definition migrator_Version ::
  "migrator \<Rightarrow> ('db, 'e) world \<Rightarrow> (Version option \<times> 'e option) outcome" where
  "migrator_Version m w = versions_Current (versions m) w"

text \<open>
  Modelled from the spec: \<open>m.CurrentVersion(ctx)\<close>, which \<open>Up\<close> and \<open>Down\<close> call first and
  which returns a version number, a description and an error, is not defined in the
  source files. The spec: the current version is the id of the record with the greatest
  id among all ledger entries; "no version" is not an error and gives \<open>v = 0\<close>; a failure
  of the store is returned as an error. The statements that the source has in the body of
  \<open>Get\<close> compute this triple (lemma \<open>Get_computes_CurrentVersion\<close>).
\<close>

definition CurrentVersion ::
  "migrator \<Rightarrow> ('db, 'e) world \<Rightarrow> nat \<times> string \<times> 'e option" where
  "CurrentVersion m w =
     (case FindOne w (versions m) of
        ErrNoDocuments \<Rightarrow> (0, [], None)
      | FindErr err \<Rightarrow> (0, [], Some err)
      | Document rec \<Rightarrow>
          (case decode_err w of
             Some err \<Rightarrow> (0, [], Some err)
           | None \<Rightarrow> (ID rec, Description rec, None)))"

text \<open>
  \<^verbatim>\<open>func (m *migrator) SetVersion(ctx, version uint, description string)\<close>: builds the
  record, stamped with the current instant, and inserts it into the ledger collection.
  The field that the literal of line 144 calls \<open>Version\<close> is the record's number, \<open>ID\<close>;
  likewise \<open>mn.Version.ID\<close> (line 178), \<open>mn.Version\<close> (lines 184, 212, 226) and
  \<open>migration.Version\<close> (lines 233, 247), where a number is compared or passed, are the id
  of the migration.
\<close>

definition SetVersion ::
  "migrator \<Rightarrow> nat \<Rightarrow> string \<Rightarrow> ('db, 'e) world \<Rightarrow> 'e option \<times> ('db, 'e) world" where
  "SetVersion m version description w =
     (let rec = \<lparr>ID = version, Description = description, Timestamp = now w\<rparr>
      in case InsertOne w (versions m) rec of
           (Some err, w') \<Rightarrow> (Some err, w')
         | (None, w') \<Rightarrow> (None, w'))"

text \<open>\<^verbatim>\<open>errors.Wrapf(err, format, curVer)\<close> keeps the cause, the format and its argument.\<close>

datatype 'e error = Plain 'e | Wrapf 'e string nat

definition fmt_migrate :: string where
  "fmt_migrate = ''migrate on version '' @ [CHR 0x27] @ ''%d'' @ [CHR 0x27]"

definition fmt_set_version :: string where
  "fmt_set_version = ''set version '' @ [CHR 0x27] @ ''%d'' @ [CHR 0x27] @ '' info''"

text \<open>
  The clamp of lines 166 to 168 and 200 to 202.
\<close>

definition clamp :: "int \<Rightarrow> nat \<Rightarrow> int" where
  "clamp n len = (if n \<le> 0 \<or> n > int len then int len else n)"

text \<open>
  The loop of \<open>Up\<close>, lines 172 to 187, over the rest of the sorted slice. It returns the
  error, the budget \<open>n\<close> that is left and the world.
\<close>

fun up_loop ::
  "migrator \<Rightarrow> nat \<Rightarrow> int \<Rightarrow> ('db, 'e) Migration list \<Rightarrow> ('db, 'e) world
     \<Rightarrow> 'e error option \<times> int \<times> ('db, 'e) world" where
  "up_loop m curVer n [] w = (None, n, w)"
| "up_loop m curVer n (mn # rest) w =
     (if n \<le> 0 then (None, n, w)
      else if ID mn \<le> curVer \<or> Up mn = None then up_loop m curVer (n - 1) rest w
      else
        (case invoke (the (Up mn)) (UpCalled (ID mn)) w of
           (Some err, w1) \<Rightarrow> (Some (Wrapf err fmt_migrate curVer), n - 1, w1)
         | (None, w1) \<Rightarrow>
             (case SetVersion m (ID mn) (Description mn) w1 of
                (Some err, w2) \<Rightarrow> (Some (Wrapf err fmt_set_version curVer), n - 1, w2)
              | (None, w2) \<Rightarrow> up_loop m curVer (n - 1) rest w2)))"

text \<open>
  \<^verbatim>\<open>func (m *migrator) Up(ctx, n int) error\<close>. The length is taken before the sort,
  the loop ranges over the sorted slice.
\<close>

definition migrator_Up ::
  "migrator \<Rightarrow> int \<Rightarrow> ('db, 'e) world \<Rightarrow> 'e error option \<times> ('db, 'e) world" where
  "migrator_Up m n w =
     (case CurrentVersion m w of
        (curVer, _, Some err) \<Rightarrow> (Some (Plain err), w)
      | (curVer, _, None) \<Rightarrow>
          (let n1 = clamp n (length (slice_get (heap w) (migrations m)));
               w0 = Migrations_Sort (migrations m) [] w
           in case up_loop m curVer n1 (slice_get (heap w0) (migrations m)) w0 of
                (r, _, w') \<Rightarrow> (r, w')))"

text \<open>
  \<^verbatim>\<open>Migration{Version: 0}\<close>, the rollback target before the first migration: every
  other field has its zero value.
\<close>

definition sentinel :: "('db, 'e) Migration" where
  "sentinel = \<lparr>ID = 0, Description = [], Timestamp = 0, Up = None, Down = None\<rparr>"

text \<open>
  The first loop of \<open>Down\<close>, lines 206 to 229, over the rest of the slice \<open>ms\<close>, which
  \<open>Sort(-1)\<close> has put in descending order. The index \<open>i\<close> of lines 220 to 223, which the
  \<open>range\<close> clause does not bind, is read as the position of \<open>mn\<close> in \<open>ms\<close>; \<open>prev\<close> is
  computed from it and not read afterwards: line 226 passes \<open>mn\<close>'s own version and
  description to \<open>SetVersion\<close>.
\<close>

fun down_loop1 ::
  "migrator \<Rightarrow> nat \<Rightarrow> ('db, 'e) Migration list \<Rightarrow> nat \<Rightarrow> int \<Rightarrow> ('db, 'e) Migration list
     \<Rightarrow> ('db, 'e) world \<Rightarrow> 'e error option \<times> int \<times> ('db, 'e) world" where
  "down_loop1 m curVer ms i n [] w = (None, n, w)"
| "down_loop1 m curVer ms i n (mn # rest) w =
     (if n \<le> 0 then (None, n, w)
      else if ID mn \<le> curVer \<or> Down mn = None
        then down_loop1 m curVer ms (Suc i) (n - 1) rest w
      else
        (case invoke (the (Down mn)) (DownCalled (ID mn)) w of
           (Some err, w1) \<Rightarrow> (Some (Wrapf err fmt_migrate curVer), n - 1, w1)
         | (None, w1) \<Rightarrow>
             (let prev = (if i = 0 then sentinel else ms ! (i - 1))
              in case SetVersion m (ID mn) (Description mn) w1 of
                   (Some err, w2) \<Rightarrow> (Some (Wrapf err fmt_set_version curVer), n - 1, w2)
                 | (None, w2) \<Rightarrow> down_loop1 m curVer ms (Suc i) (n - 1) rest w2)))"

text \<open>
  The second loop of \<open>Down\<close>, lines 231 to 250:
  \<^verbatim>\<open>for i, p := len(m.migrations)-1, 0; i >= 0 && p < n; i-- { ... }\<close>.
  The fifth argument is \<open>i + 1\<close>, so that \<open>0\<close> ends the loop; \<open>n\<close> is what the first
  loop has left of the budget. \<open>currentVersion\<close> of line 233 is read as \<open>curVer\<close>, the
  one version in scope. The errors are returned as they are.
\<close>

fun down_loop2 ::
  "migrator \<Rightarrow> nat \<Rightarrow> int \<Rightarrow> ('db, 'e) Migration list \<Rightarrow> nat \<Rightarrow> int
     \<Rightarrow> ('db, 'e) world \<Rightarrow> 'e error option \<times> ('db, 'e) world" where
  "down_loop2 m curVer n ms 0 p w = (None, w)"
| "down_loop2 m curVer n ms (Suc i) p w =
     (if \<not> p < n then (None, w)
      else
        (let migration = ms ! i
         in if ID migration > curVer \<or> Down migration = None
            then down_loop2 m curVer n ms i p w
            else
              (case invoke (the (Down migration)) (DownCalled (ID migration)) w of
                 (Some err, w1) \<Rightarrow> (Some (Plain err), w1)
               | (None, w1) \<Rightarrow>
                   (let prevMigration = (if i = 0 then sentinel else ms ! (i - 1))
                    in case SetVersion m (ID prevMigration) (Description prevMigration) w1 of
                         (Some err, w2) \<Rightarrow> (Some (Plain err), w2)
                       | (None, w2) \<Rightarrow> down_loop2 m curVer n ms i (p + 1) w2))))"

text \<open>\<^verbatim>\<open>func (m *migrator) Down(ctx, n int) error\<close>.\<close>

definition migrator_Down ::
  "migrator \<Rightarrow> int \<Rightarrow> ('db, 'e) world \<Rightarrow> 'e error option \<times> ('db, 'e) world" where
  "migrator_Down m n w =
     (case CurrentVersion m w of
        (curVer, _, Some err) \<Rightarrow> (Some (Plain err), w)
      | (curVer, _, None) \<Rightarrow>
          (let n1 = clamp n (length (slice_get (heap w) (migrations m)));
               w0 = Migrations_Sort (migrations m) [- 1] w;
               ms = slice_get (heap w0) (migrations m)
           in case down_loop1 m curVer ms 0 n1 ms w0 of
                (Some err, _, w1) \<Rightarrow> (Some err, w1)
              | (None, n2, w1) \<Rightarrow> down_loop2 m curVer n2 ms (length ms) 0 w1))"

text \<open>A sequence of calls on one migrator; the errors are dropped, the world is kept.\<close>

datatype op = OpUp int | OpDown int

fun run :: "migrator \<Rightarrow> op list \<Rightarrow> ('db, 'e) world \<Rightarrow> ('db, 'e) world" where
  "run m [] w = w"
| "run m (OpUp n # ops) w = run m ops (snd (migrator_Up m n w))"
| "run m (OpDown n # ops) w = run m ops (snd (migrator_Down m n w))"

text \<open>
  What a sort of the slice at \<open>b\<close> does to the heap: no array is added, the slices at
  other addresses are as they were, and every slice keeps its elements.
\<close>

definition sorted_only :: "nat \<Rightarrow> 'a list list \<Rightarrow> 'a list list \<Rightarrow> bool" where
  "sorted_only b h h' \<longleftrightarrow>
     length h' = length h \<and> (\<forall>a. a \<noteq> b \<longrightarrow> slice_get h' a = slice_get h a)
     \<and> (\<forall>a. mset (slice_get h' a) = mset (slice_get h a))"

section \<open>An example setting\<close>

text \<open>
  A database that counts the actions run on it, a store that refuses a second document
  with the same \<open>_id\<close> as the driver does, and migrations whose actions succeed
  (\<open>ex_mig\<close>) or whose forward action fails (\<open>ex_bad\<close>).
\<close>

definition ex_ok :: "(nat, string) MigrationFn" where
  "ex_ok d = (None, Suc d)"

definition ex_fail :: "(nat, string) MigrationFn" where
  "ex_fail d = (Some ''boom'', d)"

definition ex_mig :: "nat \<Rightarrow> (nat, string) Migration" where
  "ex_mig i = \<lparr>ID = i, Description = ''step'', Timestamp = 0, Up = Some ex_ok, Down = Some ex_ok\<rparr>"

definition ex_bad :: "nat \<Rightarrow> (nat, string) Migration" where
  "ex_bad i = \<lparr>ID = i, Description = ''bad'', Timestamp = 0, Up = Some ex_fail, Down = Some ex_ok\<rparr>"

definition ex_doc :: "nat \<Rightarrow> Version" where
  "ex_doc i = \<lparr>ID = i, Description = ''step'', Timestamp = 0\<rparr>"

definition ex_insert_err :: "Version list \<Rightarrow> Version \<Rightarrow> string option" where
  "ex_insert_err ds d = (if ID d \<in> set (map ID ds) then Some ''duplicate key'' else None)"

definition ex_world :: "(nat, string) Migration list \<Rightarrow> Version list \<Rightarrow> (nat, string) world" where
  "ex_world ms ds =
     \<lparr>heap = [ms], db = 0, colls = (\<lambda>c. if c = ''migrations'' then ds else []),
      find_err = None, decode_err = None, insert_err = ex_insert_err, now = 0, calls = []\<rparr>"

definition ex_migrator :: migrator where
  "ex_migrator = \<lparr>versions = ''migrations'', migrations = 0\<rparr>"

text \<open>
  Two starting worlds whose ledger records version \<open>1\<close>: the set \<open>{5, 1, 3}\<close>, and
  the set \<open>{1, 3, 5}\<close> in which the forward action of \<open>3\<close> fails.
\<close>

definition ex_start :: "(nat, string) world" where
  "ex_start = ex_world [ex_mig 5, ex_mig 1, ex_mig 3] [ex_doc 1]"

definition ex_start_bad :: "(nat, string) world" where
  "ex_start_bad = ex_world [ex_mig 1, ex_bad 3, ex_mig 5] [ex_doc 1]"

section \<open>Frame and loop lemmas\<close>

lemma Get_computes_CurrentVersion:
  "versions_Get (versions m) i w = Return (CurrentVersion m w)"
  by (simp add: versions_Get_def CurrentVersion_def)

lemma invoke_frame:
  assumes "invoke f c w = (r, w1)"
  shows "heap w1 = heap w" "colls w1 = colls w" "find_err w1 = find_err w"
    "decode_err w1 = decode_err w" "insert_err w1 = insert_err w" "now w1 = now w"
    "calls w1 = calls w @ [c]"
  using assms by (auto simp: invoke_def split: prod.splits)

lemma SetVersion_fail:
  "SetVersion m v d w = (Some e, w2) \<Longrightarrow> w2 = w"
  by (auto simp: SetVersion_def InsertOne_def Let_def split: option.splits prod.splits)

lemma SetVersion_ok:
  assumes "SetVersion m v d w = (None, w2)"
  shows "w2 = w\<lparr>colls := (colls w)(versions m :=
            colls w (versions m) @ [\<lparr>ID = v, Description = d, Timestamp = now w\<rparr>])\<rparr>"
  using assms
  by (auto simp: SetVersion_def InsertOne_def Let_def split: option.splits prod.splits)

lemma SetVersion_frame:
  assumes "SetVersion m v d w = (r, w2)"
  shows "heap w2 = heap w" "find_err w2 = find_err w" "db w2 = db w"
    "decode_err w2 = decode_err w" "insert_err w2 = insert_err w" "now w2 = now w"
    "calls w2 = calls w"
  using assms
  by (auto simp: SetVersion_def InsertOne_def Let_def split: option.splits prod.splits)

lemma up_loop_ConsE:
  assumes "up_loop m curVer n (mn # rest) w = (r, n', w')"
  obtains (stop) "n \<le> 0" "r = None" "n' = n" "w' = w"
  | (skip) "0 < n" "ID mn \<le> curVer \<or> Up mn = None"
      "up_loop m curVer (n - 1) rest w = (r, n', w')"
  | (action_failed) f e where "0 < n" "curVer < ID mn" "Up mn = Some f"
      "invoke f (UpCalled (ID mn)) w = (Some e, w')"
      "r = Some (Wrapf e fmt_migrate curVer)" "n' = n - 1"
  | (write_failed) f e w1 where "0 < n" "curVer < ID mn" "Up mn = Some f"
      "invoke f (UpCalled (ID mn)) w = (None, w1)"
      "SetVersion m (ID mn) (Description mn) w1 = (Some e, w')"
      "r = Some (Wrapf e fmt_set_version curVer)" "n' = n - 1"
  | (applied) f w1 w2 where "0 < n" "curVer < ID mn" "Up mn = Some f"
      "invoke f (UpCalled (ID mn)) w = (None, w1)"
      "SetVersion m (ID mn) (Description mn) w1 = (None, w2)"
      "up_loop m curVer (n - 1) rest w2 = (r, n', w')"
proof (cases "n \<le> 0")
  case True
  with assms show ?thesis by (auto intro: stop)
next
  case pos: False
  show ?thesis
  proof (cases "ID mn \<le> curVer \<or> Up mn = None")
    case True
    with pos assms show ?thesis by (auto intro: skip)
  next
    case False
    then obtain f where f: "curVer < ID mn" "Up mn = Some f" by auto
    obtain a w1 where inv: "invoke f (UpCalled (ID mn)) w = (a, w1)"
      by (cases "invoke f (UpCalled (ID mn)) w")
    obtain b w2 where sv: "SetVersion m (ID mn) (Description mn) w1 = (b, w2)"
      by (cases "SetVersion m (ID mn) (Description mn) w1")
    show ?thesis
    proof (cases a)
      case (Some e)
      with pos f inv assms show ?thesis by (auto intro: action_failed)
    next
      case None
      show ?thesis
      proof (cases b)
        case (Some e)
        with None pos f inv sv assms show ?thesis by (auto intro: write_failed)
      next
        case bn: None
        with None pos f inv sv assms show ?thesis by (auto intro: applied)
      qed
    qed
  qed
qed

lemma up_loop_frame:
  "up_loop m curVer n xs w = (r, n', w') \<Longrightarrow>
     heap w' = heap w \<and> find_err w' = find_err w \<and> decode_err w' = decode_err w
     \<and> insert_err w' = insert_err w \<and> now w' = now w"
proof (induction xs arbitrary: n w)
  case Nil
  then show ?case by simp
next
  case (Cons mn rest)
  from Cons.prems show ?case
  proof (cases rule: up_loop_ConsE)
    case stop
    then show ?thesis by simp
  next
    case skip
    from Cons.IH[OF skip(3)] show ?thesis .
  next
    case (action_failed f e)
    from invoke_frame[OF action_failed(4)] show ?thesis by simp
  next
    case (write_failed f e w1)
    from invoke_frame[OF write_failed(4)] SetVersion_frame[OF write_failed(5)]
    show ?thesis by simp
  next
    case (applied f w1 w2)
    from invoke_frame[OF applied(4)] SetVersion_frame[OF applied(5)] Cons.IH[OF applied(6)]
    show ?thesis by simp
  qed
qed

lemma up_loop_calls:
  "up_loop m curVer n xs w = (r, n', w') \<Longrightarrow>
     \<exists>cs. calls w' = calls w @ cs \<and> subseq cs (map (\<lambda>mn. UpCalled (ID mn)) xs)
       \<and> (\<forall>c\<in>set cs. \<exists>i. c = UpCalled i \<and> curVer < i)"
proof (induction xs arbitrary: n w)
  case Nil
  then show ?case by simp
next
  case (Cons mn rest)
  from Cons.prems show ?case
  proof (cases rule: up_loop_ConsE)
    case stop
    then show ?thesis by simp
  next
    case skip
    from Cons.IH[OF skip(3)] show ?thesis by auto
  next
    case (action_failed f e)
    from invoke_frame(7)[OF action_failed(4)] action_failed(2) show ?thesis
      by (auto intro!: exI[of _ "[UpCalled (ID mn)]"])
  next
    case (write_failed f e w1)
    from invoke_frame(7)[OF write_failed(4)] SetVersion_frame(7)[OF write_failed(5)]
      write_failed(2)
    show ?thesis by (auto intro!: exI[of _ "[UpCalled (ID mn)]"])
  next
    case (applied f w1 w2)
    from Cons.IH[OF applied(6)] obtain cs where
      cs: "calls w' = calls w2 @ cs" "subseq cs (map (\<lambda>mn. UpCalled (ID mn)) rest)"
          "\<forall>c\<in>set cs. \<exists>i. c = UpCalled i \<and> curVer < i" by blast
    with invoke_frame(7)[OF applied(4)] SetVersion_frame(7)[OF applied(5)] applied(2)
    show ?thesis by (auto intro!: exI[of _ "UpCalled (ID mn) # cs"])
  qed
qed

lemmas ex_defs = ex_ok_def ex_fail_def ex_mig_def ex_bad_def ex_doc_def ex_insert_err_def
  ex_world_def ex_migrator_def

lemmas prog_defs = migrator_Up_def migrator_Down_def CurrentVersion_def FindOne_def
  InsertOne_def SetVersion_def invoke_def clamp_def Migrations_Sort_def Sort_def
  slice_get_def new_calls_def AllAvailable_def Let_def

lemma migrator_Up_calls:
  "\<exists>cs. calls (snd (migrator_Up m n w)) = calls w @ cs
     \<and> subseq cs (map (\<lambda>mn. UpCalled (ID mn)) (Sort (slice_get (heap w) (migrations m)) []))
     \<and> (\<forall>c\<in>set cs. \<exists>i. c = UpCalled i \<and> fst (CurrentVersion m w) < i)"
proof -
  obtain curVer d e where cv: "CurrentVersion m w = (curVer, d, e)"
    by (cases "CurrentVersion m w")
  show ?thesis
  proof (cases e)
    case (Some err)
    with cv show ?thesis by (simp add: migrator_Up_def)
  next
    case None
    define w0 where "w0 = Migrations_Sort (migrations m) [] w"
    define n1 where "n1 = clamp n (length (slice_get (heap w) (migrations m)))"
    have sl: "slice_get (heap w0) (migrations m) = Sort (slice_get (heap w) (migrations m)) []"
      by (simp add: w0_def Migrations_Sort_def slice_get_def Sort_def)
    obtain r n' w' where
      lp: "up_loop m curVer n1 (slice_get (heap w0) (migrations m)) w0 = (r, n', w')"
      by (cases "up_loop m curVer n1 (slice_get (heap w0) (migrations m)) w0")
    have res: "snd (migrator_Up m n w) = w'"
      using cv None lp by (simp add: migrator_Up_def Let_def w0_def n1_def)
    have "calls w0 = calls w" by (simp add: w0_def Migrations_Sort_def)
    with up_loop_calls[OF lp] res sl cv show ?thesis by simp
  qed
qed

section \<open>Up never re-applies a migration\<close>



lemma down_loop1_ConsE:
  assumes "down_loop1 m curVer ms i n (mn # rest) w = (r, n', w')"
  obtains (stop) "n \<le> 0" "r = None" "n' = n" "w' = w"
  | (skip) "0 < n" "ID mn \<le> curVer \<or> Down mn = None"
      "down_loop1 m curVer ms (Suc i) (n - 1) rest w = (r, n', w')"
  | (action_failed) f e where "0 < n" "curVer < ID mn" "Down mn = Some f"
      "invoke f (DownCalled (ID mn)) w = (Some e, w')"
      "r = Some (Wrapf e fmt_migrate curVer)" "n' = n - 1"
  | (write_failed) f e w1 where "0 < n" "curVer < ID mn" "Down mn = Some f"
      "invoke f (DownCalled (ID mn)) w = (None, w1)"
      "SetVersion m (ID mn) (Description mn) w1 = (Some e, w')"
      "r = Some (Wrapf e fmt_set_version curVer)" "n' = n - 1"
  | (reverted) f w1 w2 where "0 < n" "curVer < ID mn" "Down mn = Some f"
      "invoke f (DownCalled (ID mn)) w = (None, w1)"
      "SetVersion m (ID mn) (Description mn) w1 = (None, w2)"
      "down_loop1 m curVer ms (Suc i) (n - 1) rest w2 = (r, n', w')"
proof (cases "n \<le> 0")
  case True
  with assms show ?thesis by (auto intro: stop)
next
  case pos: False
  show ?thesis
  proof (cases "ID mn \<le> curVer \<or> Down mn = None")
    case True
    with pos assms show ?thesis by (auto intro: skip)
  next
    case False
    then obtain f where f: "curVer < ID mn" "Down mn = Some f" by auto
    obtain a w1 where inv: "invoke f (DownCalled (ID mn)) w = (a, w1)"
      by (cases "invoke f (DownCalled (ID mn)) w")
    obtain b w2 where sv: "SetVersion m (ID mn) (Description mn) w1 = (b, w2)"
      by (cases "SetVersion m (ID mn) (Description mn) w1")
    show ?thesis
    proof (cases a)
      case (Some e)
      with pos f inv assms show ?thesis by (auto intro: action_failed)
    next
      case None
      show ?thesis
      proof (cases b)
        case (Some e)
        with None pos f inv sv assms show ?thesis by (auto simp: Let_def intro: write_failed)
      next
        case bn: None
        with None pos f inv sv assms show ?thesis by (auto simp: Let_def intro: reverted)
      qed
    qed
  qed
qed

lemma down_loop1_frame:
  "down_loop1 m curVer ms i n xs w = (r, n', w') \<Longrightarrow>
     heap w' = heap w \<and> find_err w' = find_err w \<and> decode_err w' = decode_err w
     \<and> insert_err w' = insert_err w \<and> now w' = now w"
proof (induction xs arbitrary: i n w)
  case Nil
  then show ?case by simp
next
  case (Cons mn rest)
  from Cons.prems show ?case
  proof (cases rule: down_loop1_ConsE)
    case stop
    then show ?thesis by simp
  next
    case skip
    from Cons.IH[OF skip(3)] show ?thesis .
  next
    case (action_failed f e)
    from invoke_frame[OF action_failed(4)] show ?thesis by simp
  next
    case (write_failed f e w1)
    from invoke_frame[OF write_failed(4)] SetVersion_frame[OF write_failed(5)]
    show ?thesis by simp
  next
    case (reverted f w1 w2)
    from invoke_frame[OF reverted(4)] SetVersion_frame[OF reverted(5)] Cons.IH[OF reverted(6)]
    show ?thesis by simp
  qed
qed

lemma down_loop1_calls:
  "down_loop1 m curVer ms i n xs w = (r, n', w') \<Longrightarrow>
     \<exists>cs. calls w' = calls w @ cs \<and> subseq cs (map (\<lambda>mn. DownCalled (ID mn)) xs)
       \<and> (\<forall>c\<in>set cs. \<exists>j. c = DownCalled j \<and> curVer < j)"
proof (induction xs arbitrary: i n w)
  case Nil
  then show ?case by simp
next
  case (Cons mn rest)
  from Cons.prems show ?case
  proof (cases rule: down_loop1_ConsE)
    case stop
    then show ?thesis by simp
  next
    case skip
    from Cons.IH[OF skip(3)] show ?thesis by auto
  next
    case (action_failed f e)
    from invoke_frame(7)[OF action_failed(4)] action_failed(2) show ?thesis
      by (auto intro!: exI[of _ "[DownCalled (ID mn)]"])
  next
    case (write_failed f e w1)
    from invoke_frame(7)[OF write_failed(4)] SetVersion_frame(7)[OF write_failed(5)]
      write_failed(2)
    show ?thesis by (auto intro!: exI[of _ "[DownCalled (ID mn)]"])
  next
    case (reverted f w1 w2)
    from Cons.IH[OF reverted(6)] obtain cs where
      cs: "calls w' = calls w2 @ cs" "subseq cs (map (\<lambda>mn. DownCalled (ID mn)) rest)"
          "\<forall>c\<in>set cs. \<exists>j. c = DownCalled j \<and> curVer < j" by blast
    with invoke_frame(7)[OF reverted(4)] SetVersion_frame(7)[OF reverted(5)] reverted(2)
    show ?thesis by (auto intro!: exI[of _ "DownCalled (ID mn) # cs"])
  qed
qed

text \<open>The first loop uses the budget up: when it ends without an error, nothing is left.\<close>

lemma down_loop1_budget:
  "down_loop1 m curVer ms i n xs w = (None, n', w') \<Longrightarrow> n \<le> int (length xs) \<Longrightarrow> n' \<le> 0"
proof (induction xs arbitrary: i n w)
  case Nil
  then show ?case by simp
next
  case (Cons mn rest)
  from Cons.prems(1) show ?case
  proof (cases rule: down_loop1_ConsE)
    case stop
    then show ?thesis by simp
  next
    case skip
    from Cons.IH[OF skip(3)] Cons.prems(2) show ?thesis by simp
  next
    case (reverted f w1 w2)
    from Cons.IH[OF reverted(6)] Cons.prems(2) show ?thesis by simp
  qed simp_all
qed

lemma down_loop2_no_budget:
  "n \<le> 0 \<Longrightarrow> down_loop2 m curVer n ms k 0 w = (None, w)"
  by (cases k) simp_all

lemma clamp_le: "clamp n len \<le> int len"
  by (simp add: clamp_def)

lemma slice_get_Migrations_Sort:
  "slice_get (heap (Migrations_Sort a d w)) a = Sort (slice_get (heap w) a) d"
  by (simp add: Migrations_Sort_def slice_get_def Sort_def)

lemma length_Sort: "length (Sort ms d) = length ms"
  by (simp add: Sort_def)

text \<open>What \<open>Down\<close> comes to: its first loop; the second loop finds no budget.\<close>

lemma migrator_Down_first_loop:
  assumes "CurrentVersion m w = (curVer, d, None)"
  shows "migrator_Down m n w =
     (case down_loop1 m curVer (Sort (slice_get (heap w) (migrations m)) [- 1]) 0
             (clamp n (length (slice_get (heap w) (migrations m))))
             (Sort (slice_get (heap w) (migrations m)) [- 1])
             (Migrations_Sort (migrations m) [- 1] w) of
        (r, _, w') \<Rightarrow> (r, w'))"
proof -
  let ?ms = "Sort (slice_get (heap w) (migrations m)) [- 1]"
  let ?n = "clamp n (length (slice_get (heap w) (migrations m)))"
  let ?w0 = "Migrations_Sort (migrations m) [- 1] w"
  obtain r n' w' where lp: "down_loop1 m curVer ?ms 0 ?n ?ms ?w0 = (r, n', w')"
    by (cases "down_loop1 m curVer ?ms 0 ?n ?ms ?w0")
  show ?thesis
  proof (cases r)
    case (Some e)
    with lp assms show ?thesis
      by (simp add: migrator_Down_def Let_def slice_get_Migrations_Sort)
  next
    case None
    have "?n \<le> int (length ?ms)" by (simp add: length_Sort clamp_le)
    with down_loop1_budget[of m curVer ?ms 0 ?n ?ms ?w0 n' w'] lp None
    have "n' \<le> 0" by simp
    with lp None assms show ?thesis
      by (simp add: migrator_Down_def Let_def slice_get_Migrations_Sort down_loop2_no_budget)
  qed
qed

lemma migrator_Down_calls:
  "\<exists>cs. calls (snd (migrator_Down m n w)) = calls w @ cs
     \<and> subseq cs (map (\<lambda>mn. DownCalled (ID mn)) (Sort (slice_get (heap w) (migrations m)) [- 1]))
     \<and> (\<forall>c\<in>set cs. \<exists>i. c = DownCalled i \<and> fst (CurrentVersion m w) < i)"
proof -
  obtain curVer d e where cv: "CurrentVersion m w = (curVer, d, e)"
    by (cases "CurrentVersion m w")
  show ?thesis
  proof (cases e)
    case (Some err)
    with cv show ?thesis by (simp add: migrator_Down_def)
  next
    case None
    let ?ms = "Sort (slice_get (heap w) (migrations m)) [- 1]"
    let ?n = "clamp n (length (slice_get (heap w) (migrations m)))"
    let ?w0 = "Migrations_Sort (migrations m) [- 1] w"
    obtain r n' w' where lp: "down_loop1 m curVer ?ms 0 ?n ?ms ?w0 = (r, n', w')"
      by (cases "down_loop1 m curVer ?ms 0 ?n ?ms ?w0")
    have res: "snd (migrator_Down m n w) = w'"
      using cv None lp by (simp add: migrator_Down_first_loop)
    have "calls ?w0 = calls w" by (simp add: Migrations_Sort_def)
    with down_loop1_calls[OF lp] res cv show ?thesis by simp
  qed
qed


lemma subseq_mset_mono: "subseq xs ys \<Longrightarrow> mset xs \<subseteq># mset ys"
proof (induction rule: list_emb.induct)
  case (list_emb_Nil ys)
  then show ?case by simp
next
  case (list_emb_Cons xs ys y)
  then have "mset xs \<subseteq># mset ys" by simp
  also have "mset ys \<subseteq># add_mset y (mset ys)" by simp
  finally show ?case by simp
next
  case (list_emb_Cons2 x y xs ys)
  then show ?case by simp
qed

lemma subseq_distinct_mono: "subseq xs ys \<Longrightarrow> distinct ys \<Longrightarrow> distinct xs"
proof (induction rule: list_emb.induct)
  case (list_emb_Nil ys)
  then show ?case by simp
next
  case (list_emb_Cons xs ys y)
  then show ?case by simp
next
  case (list_emb_Cons2 x y xs ys)
  then show ?case by (auto dest: subseq_mset_mono[THEN mset_subset_eqD])
qed

lemma mset_Sort: "mset (Sort ms d) = mset ms"
  by (simp add: Sort_def)

lemma distinct_calls_Sort:
  assumes "inj c" "distinct (map ID ms)"
  shows "distinct (map (\<lambda>mn. c (ID mn)) (Sort ms d))"
proof -
  have "distinct (map ID (Sort ms d))"
    using assms(2) mset_Sort[of ms d] by (metis distinct_map mset_map mset_eq_imp_distinct_iff)
  then have "distinct (map c (map ID (Sort ms d)))"
    using assms(1) by (simp add: distinct_map inj_on_def inj_def)
  then show ?thesis by (simp add: comp_def)
qed

section \<open>At-most-once application\<close>

text \<open>
  Claim C7. Within one call of \<open>Up\<close> or of \<open>Down\<close>, each migration's action (forward,
  respectively backward) is invoked at most once: the calls that the ghost log gains
  during the call are, as a multiset, contained in the migrations of the slice, each
  taken once; with unique ids no id is therefore called twice. For \<open>Down\<close> this rests
  on the first loop using the budget up (\<open>down_loop1_budget\<close>), so that the second loop
  invokes nothing.
\<close>

theorem at_most_once:
  "calls (snd (migrator_Down m n w)) = calls w @ new_calls w (snd (migrator_Down m n w)) \<and>
   mset (new_calls w (snd (migrator_Up m n w)))
     \<subseteq># mset (map (\<lambda>mn. UpCalled (ID mn)) (slice_get (heap w) (migrations m))) \<and>
   mset (new_calls w (snd (migrator_Down m n w)))
     \<subseteq># mset (map (\<lambda>mn. DownCalled (ID mn)) (slice_get (heap w) (migrations m))) \<and>
   (distinct (map ID (slice_get (heap w) (migrations m))) \<longrightarrow>
      distinct (new_calls w (snd (migrator_Up m n w))) \<and>
      distinct (new_calls w (snd (migrator_Down m n w))))"
proof -
  let ?ms = "slice_get (heap w) (migrations m)"
  from migrator_Up_calls[of m n w] obtain us where
    us: "calls (snd (migrator_Up m n w)) = calls w @ us"
        "subseq us (map (\<lambda>mn. UpCalled (ID mn)) (Sort ?ms []))" by blast
  from migrator_Down_calls[of m n w] obtain ds where
    ds: "calls (snd (migrator_Down m n w)) = calls w @ ds"
        "subseq ds (map (\<lambda>mn. DownCalled (ID mn)) (Sort ?ms [- 1]))" by blast
  have nu: "new_calls w (snd (migrator_Up m n w)) = us"
    using us(1) by (simp add: new_calls_def)
  have nd: "new_calls w (snd (migrator_Down m n w)) = ds"
    using ds(1) by (simp add: new_calls_def)
  have mu: "mset us \<subseteq># mset (map (\<lambda>mn. UpCalled (ID mn)) ?ms)"
    using subseq_mset_mono[OF us(2)] by (simp add: mset_Sort)
  have md: "mset ds \<subseteq># mset (map (\<lambda>mn. DownCalled (ID mn)) ?ms)"
    using subseq_mset_mono[OF ds(2)] by (simp add: mset_Sort)
  have du: "distinct us" if "distinct (map ID ?ms)"
    using subseq_distinct_mono[OF us(2)] distinct_calls_Sort[of UpCalled ?ms "[]"] that
    by (simp add: inj_def)
  have dd: "distinct ds" if "distinct (map ID ?ms)"
    using subseq_distinct_mono[OF ds(2)] distinct_calls_Sort[of DownCalled ?ms "[- 1]"] that
    by (simp add: inj_def)
  from ds(1) nu nd mu md du dd show ?thesis by simp
qed

text \<open>
  The set \<open>{5, 1, 3}\<close> on a ledger that records version \<open>1\<close>: \<open>Up(3)\<close> calls the forward
  actions of \<open>3\<close> and \<open>5\<close>, \<open>Down(3)\<close> the backward actions of \<open>5\<close> and \<open>3\<close>, each once.
\<close>

theorem at_most_once_witness:
  "distinct (map ID (slice_get (heap (ex_world [ex_mig 5, ex_mig 1, ex_mig 3] [ex_doc 1]))
      (migrations ex_migrator))) \<and>
   new_calls (ex_world [ex_mig 5, ex_mig 1, ex_mig 3] [ex_doc 1])
     (snd (migrator_Up ex_migrator 3 (ex_world [ex_mig 5, ex_mig 1, ex_mig 3] [ex_doc 1])))
     = [UpCalled 3, UpCalled 5] \<and>
   new_calls (ex_world [ex_mig 5, ex_mig 1, ex_mig 3] [ex_doc 1])
     (snd (migrator_Down ex_migrator 3 (ex_world [ex_mig 5, ex_mig 1, ex_mig 3] [ex_doc 1])))
     = [DownCalled 5, DownCalled 3] \<and>
   distinct (new_calls (ex_world [ex_mig 5, ex_mig 1, ex_mig 3] [ex_doc 1])
     (snd (migrator_Up ex_migrator 3 (ex_world [ex_mig 5, ex_mig 1, ex_mig 3] [ex_doc 1])))) \<and>
   distinct (new_calls (ex_world [ex_mig 5, ex_mig 1, ex_mig 3] [ex_doc 1])
     (snd (migrator_Down ex_migrator 3 (ex_world [ex_mig 5, ex_mig 1, ex_mig 3] [ex_doc 1]))))"
  using at_most_once[of ex_migrator 3 "ex_world [ex_mig 5, ex_mig 1, ex_mig 3] [ex_doc 1]"]
  by (simp add: ex_defs prog_defs)

lemma greatest_mem: "greatest r ds \<in> set (r # ds)"
  by (induction ds arbitrary: r) auto

lemma greatest_ge_init: "ID r \<le> ID (greatest r ds)"
proof (induction ds arbitrary: r)
  case Nil
  then show ?case by simp
next
  case (Cons d ds)
  have "ID r \<le> ID (if ID r < ID d then d else r)" by simp
  also have "\<dots> \<le> ID (greatest (if ID r < ID d then d else r) ds)" by (rule Cons.IH)
  finally show ?case by simp
qed

lemma greatest_ge_rest: "x \<in> set ds \<Longrightarrow> ID x \<le> ID (greatest r ds)"
proof (induction ds arbitrary: r)
  case Nil
  then show ?case by simp
next
  case (Cons d ds)
  show ?case
  proof (cases "x = d")
    case True
    have "ID d \<le> ID (if ID r < ID d then d else r)" by simp
    also have "\<dots> \<le> ID (greatest (if ID r < ID d then d else r) ds)"
      by (rule greatest_ge_init)
    finally show ?thesis using True by simp
  next
    case False
    with Cons.prems have "x \<in> set ds" by simp
    from Cons.IH[OF this] show ?thesis by simp
  qed
qed

lemma greatest_ge: "x \<in> set (r # ds) \<Longrightarrow> ID x \<le> ID (greatest r ds)"
proof -
  assume "x \<in> set (r # ds)"
  then consider "x = r" | "x \<in> set ds" by auto
  then show ?thesis
  proof cases
    case 1
    then show ?thesis by (simp add: greatest_ge_init)
  next
    case 2
    then show ?thesis by (rule greatest_ge_rest)
  qed
qed

lemma CurrentVersion_same:
  assumes "colls w2 = colls w1" "find_err w2 = find_err w1" "decode_err w2 = decode_err w1"
  shows "CurrentVersion m w2 = CurrentVersion m w1"
  unfolding CurrentVersion_def FindOne_def assms ..

lemma CurrentVersion_bound:
  assumes "CurrentVersion m w = (curVer, d, None)"
  shows "find_err w = None \<and> (\<forall>x\<in>set (colls w (versions m)). ID x \<le> curVer)"
proof (cases "colls w (versions m)")
  case Nil
  with assms show ?thesis
    by (auto simp: CurrentVersion_def FindOne_def split: option.splits)
next
  case (Cons r ds)
  with assms have "find_err w = None" "curVer = ID (greatest r ds)"
    by (auto simp: CurrentVersion_def FindOne_def split: option.splits)
  with Cons greatest_ge[of _ r ds] show ?thesis by auto
qed

lemma CurrentVersion_last:
  assumes "find_err w = None" "decode_err w = None"
    and "colls w (versions m) = ds @ [rec]" and "\<forall>x\<in>set ds. ID x \<le> ID rec"
  shows "fst (CurrentVersion m w) = ID rec \<and> snd (snd (CurrentVersion m w)) = None"
proof -
  obtain r rs where rs: "ds @ [rec] = r # rs" by (cases ds) auto
  have "greatest r rs \<in> set (ds @ [rec])" using greatest_mem[of r rs] rs by simp
  with assms(4) have le: "ID (greatest r rs) \<le> ID rec" by auto
  have "rec \<in> set (r # rs)" using rs by (metis in_set_conv_decomp)
  from greatest_ge[OF this] le have "ID (greatest r rs) = ID rec" by simp
  with assms(1-3) rs show ?thesis
    by (simp add: CurrentVersion_def FindOne_def)
qed

lemma up_loop_no_budget: "n \<le> 0 \<Longrightarrow> up_loop m curVer n xs w = (None, n, w)"
  by (cases xs) simp_all

lemma up_loop_append:
  "up_loop m curVer n (xs @ ys) w =
     (case up_loop m curVer n xs w of
        (None, n1, w1) \<Rightarrow> up_loop m curVer n1 ys w1
      | (Some e, n1, w1) \<Rightarrow> (Some e, n1, w1))"
proof (induction xs arbitrary: n w)
  case Nil
  then show ?case by simp
next
  case (Cons mn rest)
  show ?case
  proof (cases "n \<le> 0")
    case True
    then show ?thesis by (simp add: up_loop_no_budget)
  next
    case False
    then show ?thesis
      by (simp add: Cons.IH split: prod.splits option.splits)
  qed
qed

lemma up_loop_ledger:
  "up_loop m curVer n xs w = (r, n', w') \<Longrightarrow> x \<in> set (colls w' (versions m)) \<Longrightarrow>
     x \<in> set (colls w (versions m)) \<or> ID x \<in> ID ` set xs"
proof (induction xs arbitrary: n w)
  case Nil
  then show ?case by simp
next
  case (Cons mn rest)
  from Cons.prems(1) show ?case
  proof (cases rule: up_loop_ConsE)
    case stop
    with Cons.prems(2) show ?thesis by simp
  next
    case skip
    from Cons.IH[OF skip(3) Cons.prems(2)] show ?thesis by auto
  next
    case (action_failed f e)
    from invoke_frame(2)[OF action_failed(4)] Cons.prems(2) show ?thesis by simp
  next
    case (write_failed f e w1)
    from invoke_frame(2)[OF write_failed(4)] SetVersion_fail[OF write_failed(5)] Cons.prems(2)
    show ?thesis by simp
  next
    case (applied f w1 w2)
    from Cons.IH[OF applied(6) Cons.prems(2)] invoke_frame(2)[OF applied(4)]
      SetVersion_ok[OF applied(5)]
    show ?thesis by (auto split: if_splits)
  qed
qed

lemma sorted_Sort_asc: "sorted (map ID (Sort ms []))"
  by (simp add: Sort_def)

lemma migrator_Up_loop:
  assumes "CurrentVersion m w = (curVer, d, None)"
  shows "migrator_Up m n w =
     (case up_loop m curVer (clamp n (length (slice_get (heap w) (migrations m))))
             (Sort (slice_get (heap w) (migrations m)) [])
             (Migrations_Sort (migrations m) [] w) of
        (r, _, w') \<Rightarrow> (r, w'))"
  using assms by (simp add: migrator_Up_def Let_def slice_get_Migrations_Sort)

section \<open>A successful step of Up\<close>

text \<open>
  What a successful step leaves in the ledger. Take a call \<open>Up(ctx, n)\<close> that has read
  version \<open>curVer\<close> and has gone through the migrations \<open>pre\<close> of the sorted slice
  without an error, with budget left, and let the step for the next migration \<open>mn\<close>
  succeed: \<open>mn\<close> is pending, its forward action returns nil and the write of
  \<open>SetVersion\<close> returns nil. Then the greatest id in the ledger after the step, as
  \<open>CurrentVersion\<close> reads it at the start of the next \<open>Up\<close> or \<open>Down\<close>, is exactly the
  id of \<open>mn\<close>, and the call goes on from that world with the rest of the slice.
  (\<open>decode_err w = None\<close>: the record that is read back decodes.) This is a fact about
  the ledger and \<open>CurrentVersion\<close>, not about \<open>Version\<close>, which panics (last section).
\<close>

lemma Up_step_ledger:
  assumes "CurrentVersion m w = (curVer, d, None)" and "decode_err w = None"
    and "Sort (slice_get (heap w) (migrations m)) [] = pre @ mn # post"
    and "up_loop m curVer (clamp n (length (slice_get (heap w) (migrations m)))) pre
           (Migrations_Sort (migrations m) [] w) = (None, n1, w1)"
    and "0 < n1" and "curVer < ID mn" and "Up mn = Some f"
    and "invoke f (UpCalled (ID mn)) w1 = (None, w2)"
    and "SetVersion m (ID mn) (Description mn) w2 = (None, w3)"
  shows "fst (CurrentVersion m w3) = ID mn \<and> snd (snd (CurrentVersion m w3)) = None \<and>
         migrator_Up m n w = (case up_loop m curVer (n1 - 1) post w3 of (r, _, w') \<Rightarrow> (r, w'))"
proof -
  let ?w0 = "Migrations_Sort (migrations m) [] w"
  let ?c = "versions m"
  have w0: "colls ?w0 = colls w" "find_err ?w0 = find_err w" "decode_err ?w0 = decode_err w"
    by (simp_all add: Migrations_Sort_def)
  from CurrentVersion_bound[OF assms(1)] have
    fe: "find_err w = None" and old: "\<forall>x\<in>set (colls w ?c). ID x \<le> curVer" by simp_all
  from up_loop_frame[OF assms(4)] w0 fe assms(2) have
    f1: "find_err w1 = None" "decode_err w1 = None" by simp_all
  have "sorted (map ID (pre @ mn # post))"
    using sorted_Sort_asc[of "slice_get (heap w) (migrations m)"] assms(3) by simp
  then have pre: "\<forall>y\<in>set pre. ID y \<le> ID mn"
    by (auto simp: sorted_append)
  have b1: "\<forall>x\<in>set (colls w1 ?c). ID x \<le> ID mn"
  proof
    fix x assume "x \<in> set (colls w1 ?c)"
    from up_loop_ledger[OF assms(4) this] w0 old pre assms(6) show "ID x \<le> ID mn"
      by fastforce
  qed
  from invoke_frame[OF assms(8)] f1 b1 have
    f2: "find_err w2 = None" "decode_err w2 = None" "\<forall>x\<in>set (colls w2 ?c). ID x \<le> ID mn"
    by simp_all
  from SetVersion_ok[OF assms(9)] SetVersion_frame[OF assms(9)] f2 have
    f3: "find_err w3 = None" "decode_err w3 = None"
      "colls w3 ?c = colls w2 ?c @ [\<lparr>ID = ID mn, Description = Description mn, Timestamp = now w2\<rparr>]"
    by simp_all
  from CurrentVersion_last[OF f3(1,2,3)] f2(3) have
    cur: "fst (CurrentVersion m w3) = ID mn \<and> snd (snd (CurrentVersion m w3)) = None" by simp
  have "up_loop m curVer (clamp n (length (slice_get (heap w) (migrations m))))
          (pre @ mn # post) ?w0 = up_loop m curVer (n1 - 1) post w3"
    using assms(4-9) by (simp add: up_loop_append)
  with migrator_Up_loop[OF assms(1), of n] assms(3) cur show ?thesis by simp
qed

text \<open>
  The set \<open>{5, 1, 3}\<close> on a ledger that records version \<open>1\<close>, \<open>Up(AllAvailable)\<close>: the
  loop skips \<open>1\<close>; after the step for \<open>3\<close> the greatest id in the ledger is \<open>3\<close>.
\<close>

lemma Up_step_ledger_example:
  "CurrentVersion ex_migrator ex_start = (1, ''step'', None) \<and>
   Sort (slice_get (heap ex_start) (migrations ex_migrator)) [] = [ex_mig 1] @ ex_mig 3 # [ex_mig 5] \<and>
   up_loop ex_migrator 1 (clamp AllAvailable (length (slice_get (heap ex_start) (migrations ex_migrator))))
     [ex_mig 1] (Migrations_Sort (migrations ex_migrator) [] ex_start)
     = (None, 2, Migrations_Sort (migrations ex_migrator) [] ex_start) \<and>
   fst (invoke ex_ok (UpCalled (ID (ex_mig 3))) (Migrations_Sort (migrations ex_migrator) [] ex_start)) = None \<and>
   fst (SetVersion ex_migrator (ID (ex_mig 3)) (Description (ex_mig 3))
     (snd (invoke ex_ok (UpCalled (ID (ex_mig 3))) (Migrations_Sort (migrations ex_migrator) [] ex_start)))) = None \<and>
   fst (CurrentVersion ex_migrator (snd (SetVersion ex_migrator (ID (ex_mig 3)) (Description (ex_mig 3))
     (snd (invoke ex_ok (UpCalled (ID (ex_mig 3))) (Migrations_Sort (migrations ex_migrator) [] ex_start)))))) = 3"
proof -
  let ?w1 = "Migrations_Sort (migrations ex_migrator) [] ex_start"
  let ?w2 = "snd (invoke ex_ok (UpCalled (ID (ex_mig 3))) ?w1)"
  let ?w3 = "snd (SetVersion ex_migrator (ID (ex_mig 3)) (Description (ex_mig 3)) ?w2)"
  have h1: "CurrentVersion ex_migrator ex_start = (1, ''step'', None)"
    by (simp add: ex_start_def ex_defs prog_defs)
  have h2: "decode_err ex_start = None"
    by (simp add: ex_start_def ex_defs)
  have h3: "Sort (slice_get (heap ex_start) (migrations ex_migrator)) []
      = [ex_mig 1] @ ex_mig 3 # [ex_mig 5]"
    by (simp add: ex_start_def ex_defs prog_defs)
  have h4: "up_loop ex_migrator 1
      (clamp AllAvailable (length (slice_get (heap ex_start) (migrations ex_migrator))))
      [ex_mig 1] ?w1 = (None, 2, ?w1)"
    by (simp add: ex_start_def ex_defs prog_defs)
  have h5: "(0::int) < 2" by simp
  have h6: "1 < ID (ex_mig 3)" by (simp add: ex_defs)
  have h7: "Up (ex_mig 3) = Some ex_ok" by (simp add: ex_mig_def)
  have h8: "invoke ex_ok (UpCalled (ID (ex_mig 3))) ?w1 = (None, ?w2)"
    by (simp add: invoke_def ex_ok_def)
  have h9: "SetVersion ex_migrator (ID (ex_mig 3)) (Description (ex_mig 3)) ?w2 = (None, ?w3)"
    by (simp add: ex_start_def ex_defs prog_defs)
  have g8: "fst (invoke ex_ok (UpCalled (ID (ex_mig 3))) ?w1) = None"
    using h8 by (metis fst_conv)
  have g9: "fst (SetVersion ex_migrator (ID (ex_mig 3)) (Description (ex_mig 3)) ?w2) = None"
    using h9 by (metis fst_conv)
  have "fst (CurrentVersion ex_migrator ?w3) = ID (ex_mig 3)"
    using Up_step_ledger[OF h1 h2 h3 h4 h5 h6 h7 h8 h9] by (rule conjunct1)
  also have "ID (ex_mig 3) = 3" by (simp add: ex_mig_def)
  finally have r: "fst (CurrentVersion ex_migrator ?w3) = 3" .
  show ?thesis
    by (intro conjI) (rule h1, rule h3, rule h4, rule g8, rule g9, rule r)
qed

section \<open>A failing forward action\<close>

text \<open>
  What a failing forward action leaves. Take a call \<open>Up(ctx, n)\<close> as above, and let the
  forward action of the next pending migration \<open>mn\<close> fail with \<open>e\<close>. Then the call
  returns at once, with the error \<open>Wrapf e "migrate on version '%d'" curVer\<close> that wraps
  the cause \<open>e\<close>, in the world \<open>w2\<close> the action left: no action is invoked after it, no
  ledger record is written for the step (the collections are those before the step), and
  \<open>CurrentVersion\<close> reads what it read before the step. Again this says nothing of
  \<open>Version\<close>.
\<close>

lemma Up_failure_aborts:
  assumes "CurrentVersion m w = (curVer, d, None)"
    and "Sort (slice_get (heap w) (migrations m)) [] = pre @ mn # post"
    and "up_loop m curVer (clamp n (length (slice_get (heap w) (migrations m)))) pre
           (Migrations_Sort (migrations m) [] w) = (None, n1, w1)"
    and "0 < n1" and "curVer < ID mn" and "Up mn = Some f"
    and "invoke f (UpCalled (ID mn)) w1 = (Some e, w2)"
  shows "migrator_Up m n w = (Some (Wrapf e fmt_migrate curVer), w2) \<and>
         colls w2 = colls w1 \<and> CurrentVersion m w2 = CurrentVersion m w1 \<and>
         calls w2 = calls w1 @ [UpCalled (ID mn)]"
proof -
  let ?w0 = "Migrations_Sort (migrations m) [] w"
  have "up_loop m curVer (clamp n (length (slice_get (heap w) (migrations m))))
          (pre @ mn # post) ?w0 = (Some (Wrapf e fmt_migrate curVer), n1 - 1, w2)"
    using assms(3-7) by (simp add: up_loop_append)
  with migrator_Up_loop[OF assms(1), of n] assms(2) have
    res: "migrator_Up m n w = (Some (Wrapf e fmt_migrate curVer), w2)" by simp
  from invoke_frame[OF assms(7)] have
    fr: "colls w2 = colls w1" "find_err w2 = find_err w1" "decode_err w2 = decode_err w1"
    "calls w2 = calls w1 @ [UpCalled (ID mn)]" by simp_all
  from CurrentVersion_same[OF fr(1,2,3)] res fr(1,4) show ?thesis by simp
qed


text \<open>
  The set \<open>{1, 3, 5}\<close> with a failing forward action of \<open>3\<close>, on a ledger that records
  version \<open>1\<close>: \<open>Up(AllAvailable)\<close> returns the wrapped error and the ledger still holds
  the one record of version \<open>1\<close>.
\<close>

lemma Up_failure_aborts_example:
  "CurrentVersion ex_migrator ex_start_bad = (1, ''step'', None) \<and>
   Sort (slice_get (heap ex_start_bad) (migrations ex_migrator)) [] = [ex_mig 1] @ ex_bad 3 # [ex_mig 5] \<and>
   up_loop ex_migrator 1 (clamp AllAvailable (length (slice_get (heap ex_start_bad) (migrations ex_migrator))))
     [ex_mig 1] (Migrations_Sort (migrations ex_migrator) [] ex_start_bad)
     = (None, 2, Migrations_Sort (migrations ex_migrator) [] ex_start_bad) \<and>
   fst (invoke ex_fail (UpCalled (ID (ex_bad 3))) (Migrations_Sort (migrations ex_migrator) [] ex_start_bad))
     = Some ''boom'' \<and>
   fst (migrator_Up ex_migrator AllAvailable ex_start_bad) = Some (Wrapf ''boom'' fmt_migrate 1) \<and>
   map ID (colls (snd (migrator_Up ex_migrator AllAvailable ex_start_bad)) ''migrations'') = [1]"
proof -
  let ?w1 = "Migrations_Sort (migrations ex_migrator) [] ex_start_bad"
  let ?w2 = "snd (invoke ex_fail (UpCalled (ID (ex_bad 3))) ?w1)"
  have h1: "CurrentVersion ex_migrator ex_start_bad = (1, ''step'', None)"
    by (simp add: ex_start_bad_def ex_defs prog_defs)
  have h3: "Sort (slice_get (heap ex_start_bad) (migrations ex_migrator)) []
      = [ex_mig 1] @ ex_bad 3 # [ex_mig 5]"
    by (simp add: ex_start_bad_def ex_defs prog_defs)
  have h4: "up_loop ex_migrator 1
      (clamp AllAvailable (length (slice_get (heap ex_start_bad) (migrations ex_migrator))))
      [ex_mig 1] ?w1 = (None, 2, ?w1)"
    by (simp add: ex_start_bad_def ex_defs prog_defs)
  have h5: "(0::int) < 2" by simp
  have h6: "1 < ID (ex_bad 3)" by (simp add: ex_defs)
  have h7: "Up (ex_bad 3) = Some ex_fail" by (simp add: ex_bad_def)
  have h8: "invoke ex_fail (UpCalled (ID (ex_bad 3))) ?w1 = (Some ''boom'', ?w2)"
    by (simp add: invoke_def ex_fail_def)
  have c: "map ID (colls ?w1 ''migrations'') = [1]"
    by (simp add: ex_start_bad_def ex_defs prog_defs)
  note r = Up_failure_aborts[OF h1 h3 h4 h5 h6 h7 h8]
  have g8: "fst (invoke ex_fail (UpCalled (ID (ex_bad 3))) ?w1) = Some ''boom''"
    using h8 by (metis fst_conv)
  have r1: "fst (migrator_Up ex_migrator AllAvailable ex_start_bad)
      = Some (Wrapf ''boom'' fmt_migrate 1)"
    using r[THEN conjunct1] by (metis fst_conv)
  have "snd (migrator_Up ex_migrator AllAvailable ex_start_bad) = ?w2"
    using r[THEN conjunct1] by (metis snd_conv)
  moreover have "colls ?w2 = colls ?w1" by (rule r[THEN conjunct2, THEN conjunct1])
  ultimately have
    "map ID (colls (snd (migrator_Up ex_migrator AllAvailable ex_start_bad)) ''migrations'')
      = map ID (colls ?w1 ''migrations'')"
    by (simp only:)
  with c have r2:
    "map ID (colls (snd (migrator_Up ex_migrator AllAvailable ex_start_bad)) ''migrations'') = [1]"
    by (simp only:)
  show ?thesis
    by (intro conjI) (rule h1, rule h3, rule h4, rule g8, rule r1, rule r2)
qed

lemma migrator_Up_heap:
  "heap (snd (migrator_Up m n w)) = heap w \<or>
   heap (snd (migrator_Up m n w)) = heap (Migrations_Sort (migrations m) [] w)"
proof -
  obtain curVer d e where cv: "CurrentVersion m w = (curVer, d, e)"
    by (cases "CurrentVersion m w")
  show ?thesis
  proof (cases e)
    case (Some err)
    with cv show ?thesis by (simp add: migrator_Up_def)
  next
    case None
    let ?w0 = "Migrations_Sort (migrations m) [] w"
    let ?n = "clamp n (length (slice_get (heap w) (migrations m)))"
    let ?ms = "Sort (slice_get (heap w) (migrations m)) []"
    obtain r n' w' where lp: "up_loop m curVer ?n ?ms ?w0 = (r, n', w')"
      by (cases "up_loop m curVer ?n ?ms ?w0")
    from cv None lp have "snd (migrator_Up m n w) = w'"
      by (simp add: migrator_Up_loop)
    with up_loop_frame[OF lp] show ?thesis by simp
  qed
qed

lemma migrator_Down_heap:
  "heap (snd (migrator_Down m n w)) = heap w \<or>
   heap (snd (migrator_Down m n w)) = heap (Migrations_Sort (migrations m) [- 1] w)"
proof -
  obtain curVer d e where cv: "CurrentVersion m w = (curVer, d, e)"
    by (cases "CurrentVersion m w")
  show ?thesis
  proof (cases e)
    case (Some err)
    with cv show ?thesis by (simp add: migrator_Down_def)
  next
    case None
    let ?w0 = "Migrations_Sort (migrations m) [- 1] w"
    let ?n = "clamp n (length (slice_get (heap w) (migrations m)))"
    let ?ms = "Sort (slice_get (heap w) (migrations m)) [- 1]"
    obtain r n' w' where lp: "down_loop1 m curVer ?ms 0 ?n ?ms ?w0 = (r, n', w')"
      by (cases "down_loop1 m curVer ?ms 0 ?n ?ms ?w0")
    from cv None lp have "snd (migrator_Down m n w) = w'"
      by (simp add: migrator_Down_first_loop)
    with down_loop1_frame[OF lp] show ?thesis by simp
  qed
qed

lemma sorted_only_refl: "sorted_only b h h"
  by (simp add: sorted_only_def)

lemma sorted_only_trans: "sorted_only b h h' \<Longrightarrow> sorted_only b h' h'' \<Longrightarrow> sorted_only b h h''"
  by (simp add: sorted_only_def)

lemma sorted_only_Sort: "sorted_only b (heap w) (heap (Migrations_Sort b d w))"
  by (auto simp: sorted_only_def Migrations_Sort_def slice_get_def mset_Sort nth_list_update)

lemma sorted_only_Up: "sorted_only (migrations m) (heap w) (heap (snd (migrator_Up m n w)))"
  using migrator_Up_heap[of m n w] sorted_only_refl sorted_only_Sort by metis

lemma sorted_only_Down: "sorted_only (migrations m) (heap w) (heap (snd (migrator_Down m n w)))"
  using migrator_Down_heap[of m n w] sorted_only_refl sorted_only_Sort by metis

lemma sorted_only_run: "sorted_only (migrations m) (heap w) (heap (run m ops w))"
proof (induction ops arbitrary: w)
  case Nil
  then show ?case by (simp add: sorted_only_refl)
next
  case (Cons x ops)
  show ?case
  proof (cases x)
    case (OpUp n)
    with Cons.IH[of "snd (migrator_Up m n w)"] sorted_only_Up[of m w n]
    show ?thesis by (auto intro: sorted_only_trans)
  next
    case (OpDown n)
    with Cons.IH[of "snd (migrator_Down m n w)"] sorted_only_Down[of m w n]
    show ?thesis by (auto intro: sorted_only_trans)
  qed
qed

section \<open>The caller's slice\<close>

text \<open>
  Claim C10. \<open>NewMigrate\<close> stores a clone of the caller's slice: the migrator's slice
  holds the same migrations at an address of its own, and whatever sequence of \<open>Up\<close> and
  \<open>Down\<close> calls runs on the migrator, with their sorting in place, the slice at the
  caller's address \<open>a\<close> reads as it did before the construction.
\<close>

theorem NewMigrate_clones:
  "slice_get (heap (snd (NewMigrate w a opts))) (migrations (fst (NewMigrate w a opts)))
     = slice_get (heap w) a \<and>
   slice_get (heap (run (fst (NewMigrate w a opts)) ops (snd (NewMigrate w a opts)))) a
     = slice_get (heap w) a"
proof -
  let ?m = "fst (NewMigrate w a opts)"
  let ?w1 = "snd (NewMigrate w a opts)"
  have m: "migrations ?m = length (heap w)" by (simp add: NewMigrate_def Let_def)
  have h1: "heap ?w1 = heap w @ [slice_get (heap w) a]" by (simp add: NewMigrate_def Let_def)
  have own: "slice_get (heap ?w1) (migrations ?m) = slice_get (heap w) a"
    by (simp add: m h1 slice_get_def)
  from sorted_only_run[of ?m ?w1 ops] have
    so: "sorted_only (length (heap w)) (heap ?w1) (heap (run ?m ops ?w1))" by (simp add: m)
  have "slice_get (heap (run ?m ops ?w1)) a = slice_get (heap w) a"
  proof (cases "a < length (heap w)")
    case True
    with so have "slice_get (heap (run ?m ops ?w1)) a = slice_get (heap ?w1) a"
      by (simp add: sorted_only_def)
    also from True have "\<dots> = slice_get (heap w) a"
      by (simp add: h1 slice_get_def nth_append)
    finally show ?thesis .
  next
    case False
    then have e: "slice_get (heap w) a = []" by (simp add: slice_get_def)
    with False have "slice_get (heap ?w1) a = []"
      by (auto simp: h1 slice_get_def nth_append)
    with so have "mset (slice_get (heap (run ?m ops ?w1)) a) = {#}"
      by (simp add: sorted_only_def)
    with e show ?thesis by simp
  qed
  with own show ?thesis by simp
qed

text \<open>
  The caller's slice \<open>[5, 1, 3]\<close>: after \<open>Up(AllAvailable)\<close> and \<open>Down(1)\<close> the
  migrator's slice is in descending order, the caller's is as it was.
\<close>

theorem NewMigrate_clones_witness:
  "map ID (slice_get (heap ex_start) 0) = [5, 1, 3] \<and>
   map ID (slice_get (heap (run (fst (NewMigrate ex_start 0 [])) [OpUp AllAvailable, OpDown 1]
      (snd (NewMigrate ex_start 0 [])))) (migrations (fst (NewMigrate ex_start 0 [])))) = [5, 3, 1] \<and>
   slice_get (heap (run (fst (NewMigrate ex_start 0 [])) [OpUp AllAvailable, OpDown 1]
      (snd (NewMigrate ex_start 0 [])))) 0 = slice_get (heap ex_start) 0"
proof -
  have a: "map ID (slice_get (heap ex_start) 0) = [5, 1, 3]"
    by (simp add: ex_start_def ex_defs slice_get_def)
  have b: "map ID (slice_get (heap (run (fst (NewMigrate ex_start 0 [])) [OpUp AllAvailable, OpDown 1]
      (snd (NewMigrate ex_start 0 [])))) (migrations (fst (NewMigrate ex_start 0 [])))) = [5, 3, 1]"
    by (simp add: NewMigrate_def defaultMigrationsCollection_def ex_start_def ex_defs prog_defs)
  from NewMigrate_clones[of ex_start 0 "[]" "[OpUp AllAvailable, OpDown 1]"] a b
  show ?thesis by (intro conjI) (simp_all only:)
qed


section \<open>Up followed by Down\<close>

text \<open>
  Claim C1 says that \<open>Up(AllAvailable)\<close> and then \<open>Down(AllAvailable)\<close>, from an empty
  ledger, leave the recorded version at \<open>0\<close>. In the code the loop of \<open>Down\<close> that runs
  skips a migration when its id is at most the current version, as \<open>Up\<close> does. On the
  set of the one migration \<open>1\<close>, whose actions succeed: \<open>Up\<close> records version \<open>1\<close>;
  \<open>Down\<close> then returns nil, invokes no backward action, and the recorded version is
  still \<open>1\<close>.
\<close>

theorem Up_then_Down_keeps_version:
  "fst (migrator_Up ex_migrator AllAvailable (ex_world [ex_mig 1] [])) = None \<and>
   fst (CurrentVersion ex_migrator
     (snd (migrator_Up ex_migrator AllAvailable (ex_world [ex_mig 1] [])))) = 1 \<and>
   fst (migrator_Down ex_migrator AllAvailable
     (snd (migrator_Up ex_migrator AllAvailable (ex_world [ex_mig 1] [])))) = None \<and>
   calls (snd (migrator_Down ex_migrator AllAvailable
     (snd (migrator_Up ex_migrator AllAvailable (ex_world [ex_mig 1] []))))) = [UpCalled 1] \<and>
   fst (CurrentVersion ex_migrator (snd (migrator_Down ex_migrator AllAvailable
     (snd (migrator_Up ex_migrator AllAvailable (ex_world [ex_mig 1] [])))))) = 1"
  by (simp add: ex_defs prog_defs)

section \<open>The record a step of Down writes\<close>

text \<open>
  Claim C2 says that the record written after reverting \<open>m\<close> carries the id of the
  migration before \<open>m\<close> in ascending order. In the code line 226 passes \<open>m\<close>'s own
  version to \<open>SetVersion\<close>. On the set \<open>{1, 3}\<close> with recorded version \<open>1\<close>, \<open>Down(1)\<close>
  invokes the backward action of \<open>3\<close>, returns nil, and the record it appends to the
  ledger has id \<open>3\<close>, not \<open>1\<close>.
\<close>

theorem Down_records_own_id:
  "fst (CurrentVersion ex_migrator (ex_world [ex_mig 1, ex_mig 3] [ex_doc 1])) = 1 \<and>
   fst (migrator_Down ex_migrator 1 (ex_world [ex_mig 1, ex_mig 3] [ex_doc 1])) = None \<and>
   calls (snd (migrator_Down ex_migrator 1 (ex_world [ex_mig 1, ex_mig 3] [ex_doc 1])))
     = [DownCalled 3] \<and>
   map ID (colls (snd (migrator_Down ex_migrator 1 (ex_world [ex_mig 1, ex_mig 3] [ex_doc 1])))
     ''migrations'') = [1, 3]"
  by (simp add: ex_defs prog_defs)

section \<open>Skipped migrations and the budget\<close>

text \<open>
  Claim C3 says that a skipped migration does not consume the budget, so that on the set
  \<open>{1, 3, 5}\<close> with recorded version \<open>1\<close>, \<open>Up(1)\<close> applies \<open>3\<close>. In the code line 176
  decrements \<open>n\<close> before the test of line 178: \<open>Up(1)\<close> spends its budget on the
  skipped \<open>1\<close>, returns nil, invokes no action, and the recorded version is still \<open>1\<close>.
\<close>

theorem Up_skip_uses_budget:
  "fst (CurrentVersion ex_migrator (ex_world [ex_mig 1, ex_mig 3, ex_mig 5] [ex_doc 1])) = 1 \<and>
   fst (migrator_Up ex_migrator 1 (ex_world [ex_mig 1, ex_mig 3, ex_mig 5] [ex_doc 1])) = None \<and>
   calls (snd (migrator_Up ex_migrator 1 (ex_world [ex_mig 1, ex_mig 3, ex_mig 5] [ex_doc 1]))) = [] \<and>
   fst (CurrentVersion ex_migrator
     (snd (migrator_Up ex_migrator 1 (ex_world [ex_mig 1, ex_mig 3, ex_mig 5] [ex_doc 1])))) = 1"
  by (simp add: ex_defs prog_defs)

section \<open>Get and Current\<close>

text \<open>
  Claim C8 says that \<open>Get(id)\<close> returns the record with that id, or "not found". In the
  code \<open>Get\<close> does not read \<open>id\<close>: on a ledger with the records \<open>1\<close> and \<open>3\<close>,
  \<open>Get(1)\<close> returns version \<open>3\<close>, and so does \<open>Get(7)\<close>, for which there is no record.
\<close>

theorem Get_ignores_id:
  "versions_Get ''migrations'' 1 (ex_world [] [ex_doc 1, ex_doc 3]) = Return (3, ''step'', None) \<and>
   versions_Get ''migrations'' 7 (ex_world [] [ex_doc 1, ex_doc 3]) = Return (3, ''step'', None)"
  by (simp add: versions_Get_def FindOne_def ex_defs)

text \<open>
  Claim C9 says that \<open>Current()\<close> returns "no version" and a nil error on an empty
  ledger, and the record with the greatest id otherwise. In the code \<open>Current\<close> panics,
  on an empty ledger and on any other, and with it \<open>Version\<close>.
\<close>

theorem Current_panics:
  "versions_Current ''migrations'' (ex_world [] []) = Panic ''implement me'' \<and>
   versions_Current ''migrations'' (ex_world [] [ex_doc 1, ex_doc 3]) = Panic ''implement me'' \<and>
   migrator_Version ex_migrator (ex_world [] [ex_doc 1, ex_doc 3]) = Panic ''implement me''"
  by (simp add: versions_Current_def migrator_Version_def)

section \<open>Version after a step of Up\<close>

text \<open>
  Claim C5 says that after a successful step of \<open>Up\<close> for a migration \<open>m\<close>, \<open>Version()\<close>
  returns the id of \<open>m\<close>. In the code \<open>Version\<close> delegates to \<open>Current\<close>, which panics.
  On the set \<open>{5, 1, 3}\<close> with recorded version \<open>1\<close>, \<open>Up(2)\<close> skips \<open>1\<close>, invokes the
  forward action of \<open>3\<close>, appends the record with id \<open>3\<close> and returns nil; \<open>Version\<close>
  called then panics and returns no version.
\<close>

theorem Version_panics_after_step:
  "fst (migrator_Up ex_migrator 2 ex_start) = None \<and>
   calls (snd (migrator_Up ex_migrator 2 ex_start)) = [UpCalled 3] \<and>
   map ID (colls (snd (migrator_Up ex_migrator 2 ex_start)) ''migrations'') = [1, 3] \<and>
   migrator_Version ex_migrator (snd (migrator_Up ex_migrator 2 ex_start))
     = Panic ''implement me''"
  by (simp add: ex_start_def ex_defs prog_defs versions_Current_def migrator_Version_def)

text \<open>
  Claim C6 says that when a forward action fails, \<open>Up\<close> aborts with an error wrapping the
  cause, writes no ledger record for the step, and \<open>Version()\<close> still reports the value
  recorded before the step. On the set \<open>{1, 3, 5}\<close> with a failing forward action of
  \<open>3\<close> and recorded version \<open>1\<close>, \<open>Up(AllAvailable)\<close> returns the cause wrapped with
  "migrate on version '%d'" and \<open>1\<close>, the failed call is the last one, and the ledger
  still holds the one record with id \<open>1\<close>; but \<open>Version\<close> panics before the call and
  after it, and reports no value.
\<close>

theorem Version_panics_after_failure:
  "fst (migrator_Up ex_migrator AllAvailable ex_start_bad) = Some (Wrapf ''boom'' fmt_migrate 1) \<and>
   calls (snd (migrator_Up ex_migrator AllAvailable ex_start_bad)) = [UpCalled 3] \<and>
   map ID (colls (snd (migrator_Up ex_migrator AllAvailable ex_start_bad)) ''migrations'') = [1] \<and>
   migrator_Version ex_migrator ex_start_bad = Panic ''implement me'' \<and>
   migrator_Version ex_migrator (snd (migrator_Up ex_migrator AllAvailable ex_start_bad))
     = Panic ''implement me''"
  by (simp add: ex_start_bad_def ex_defs prog_defs versions_Current_def migrator_Version_def)

end
